theory Spec2Isabelle
  imports Main "HOL-Library.Word"
begin

section \<open>The load balancer of loadbalancer/loadbalancer.go\<close>

text \<open>
  The model is sequential: every method of the load balancer is one atomic step on the
  state. The per-record mutex of \<open>Server\<close> and the atomic add on the counter are what make
  single reads and writes atomic in the Go program; the model has no field for the mutex.
  A \<open>*Server\<close> that points into \<open>lb.servers\<close> is the index of that element, so a write
  through the pointer is a write to the registry.
\<close>

subsection \<open>Data\<close>

record Server =
  URL :: string
  Healthy :: bool

record LoadBalancer =
  servers :: "Server list"
  current :: "64 word"

record StatusResponse =
  LoadBalancer :: string
  Servers :: "Server list"
  Algorithm :: string
  Timestamp :: nat

datatype error = NoHealthyServers

fun Error :: "error \<Rightarrow> string" where
  "Error NoHealthyServers = ''no healthy servers available''"

definition SetHealth :: "bool \<Rightarrow> Server \<Rightarrow> Server" where
  "SetHealth healthy s = s\<lparr>Healthy := healthy\<rparr>"

definition IsHealthy :: "Server \<Rightarrow> bool" where
  "IsHealthy s = Healthy s"

definition NewLoadBalancer :: LoadBalancer where
  "NewLoadBalancer =
     \<lparr>servers =
        [\<lparr>URL = ''http://host.docker.internal:8081'', Healthy = True\<rparr>,
         \<lparr>URL = ''http://host.docker.internal:8082'', Healthy = True\<rparr>,
         \<lparr>URL = ''http://host.docker.internal:8083'', Healthy = True\<rparr>],
      current = 0\<rparr>"

subsection \<open>Selection\<close>

text \<open>
  The loop of \<open>GetNextServer\<close> appends \<open>&lb.servers[i]\<close> for every healthy \<open>i\<close>, in the
  order of the range.
\<close>

definition healthyServers :: "LoadBalancer \<Rightarrow> nat list" where
  "healthyServers lb =
     fold (\<lambda>i hs. if IsHealthy (servers lb ! i) then hs @ [i] else hs)
       [0..<length (servers lb)] []"

text \<open>
  \<open>next % uint64(len(healthyServers))\<close> is a remainder of 64-bit words. The length of a
  Go slice is an \<open>int\<close>, so it is below \<open>2 ^ 63\<close> and the conversion keeps its value.
\<close>

definition GetNextServer :: "LoadBalancer \<Rightarrow> (error + nat) \<times> LoadBalancer" where
  "GetNextServer lb =
     (let hs = healthyServers lb in
      if length hs = 0 then (Inl NoHealthyServers, lb)
      else
        let next = current lb + 1 in
        (Inr (hs ! unat (next mod word_of_nat (length hs))), lb\<lparr>current := next\<rparr>))"

text \<open>\<open>n\<close> calls of \<open>GetNextServer\<close> one after the other, with nothing in between.\<close>

fun GetNextServer_times :: "nat \<Rightarrow> LoadBalancer \<Rightarrow> (error + nat) list \<times> LoadBalancer" where
  "GetNextServer_times 0 lb = ([], lb)"
| "GetNextServer_times (Suc n) lb =
     (let (r, lb') = GetNextServer lb;
          (rs, lb'') = GetNextServer_times n lb'
      in (r # rs, lb''))"

subsection \<open>Health monitor\<close>

text \<open>
  \<open>client.Get\<close> either fails (\<open>err != nil\<close>: refused, timed out, reset) or completes with a
  response, of which \<open>HealthCheck\<close> reads the status code only.
\<close>

record http_Response =
  StatusCode :: int
  Body :: string

datatype get_result = Err | Res http_Response

datatype log_line =
    Performing_health_checks
  | Health_check_failed string
  | Is_back_up string
  | Is_down string
  | Is_still_up string
  | Routing_request_to string
  | Proxy_error_for string
  | Request_completed string int

definition StatusOK :: int where
  "StatusOK = 200"

definition StatusServiceUnavailable :: int where
  "StatusServiceUnavailable = 503"

text \<open>
  The body of the inner loop of \<open>HealthCheck\<close> for one record: the result of the probe, the
  record before, and the record and the lines logged after.
\<close>

definition HealthCheck_server :: "get_result \<Rightarrow> Server \<Rightarrow> Server \<times> log_line list" where
  "HealthCheck_server res_err server =
     (let wasHealthy = IsHealthy server in
      case res_err of
        Err \<Rightarrow>
          (SetHealth False server,
           if wasHealthy then [Health_check_failed (URL server)] else [])
      | Res res \<Rightarrow>
          (let healthy = (StatusCode res = StatusOK) in
           (SetHealth healthy server,
            if \<not> wasHealthy \<and> healthy then [Is_back_up (URL server)]
            else if wasHealthy \<and> \<not> healthy then [Is_down (URL server)]
            else [Is_still_up (URL server)])))"

text \<open>
  The flag that \<open>HealthCheck\<close> commits for an outcome of the probe: \<open>SetHealth(false)\<close> after
  an error, \<open>SetHealth(res.StatusCode == http.StatusOK)\<close> after a response.
\<close>

definition classification :: "get_result \<Rightarrow> bool" where
  "classification res_err =
     (case res_err of Err \<Rightarrow> False | Res res \<Rightarrow> StatusCode res = StatusOK)"

text \<open>
  One pass of the outer loop of \<open>HealthCheck\<close>, up to the sleep. \<open>Get i u\<close> is what the
  \<open>i\<close>-th probe of the pass, sent to the address \<open>u\<close>, comes back with. The outer loop
  itself never returns; the claims are about its passes.
\<close>

definition HealthCheck_step ::
  "(nat \<Rightarrow> string \<Rightarrow> get_result) \<Rightarrow> nat \<Rightarrow> LoadBalancer \<times> log_line list \<Rightarrow>
   LoadBalancer \<times> log_line list" where
  "HealthCheck_step Get i st =
     (let (lb, out) = st;
          server = servers lb ! i;
          (server', lines) = HealthCheck_server (Get i (URL server @ ''/health'')) server
      in (lb\<lparr>servers := (servers lb)[i := server']\<rparr>, out @ lines))"

definition HealthCheck_cycle ::
  "(nat \<Rightarrow> string \<Rightarrow> get_result) \<Rightarrow> LoadBalancer \<Rightarrow> LoadBalancer \<times> log_line list" where
  "HealthCheck_cycle Get lb =
     fold (HealthCheck_step Get) [0..<length (servers lb)] (lb, [Performing_health_checks])"

subsection \<open>Forwarder and status reporter\<close>

record request =
  Method :: string
  Path :: string

text \<open>
  What \<open>proxy.ServeHTTP\<close> meets at the backend: a transport error, which runs the
  \<open>ErrorHandler\<close>, or a response, which runs \<open>ModifyResponse\<close> and is passed on.
\<close>

datatype relay_result = RelayError | RelayResponse http_Response

datatype response =
    Http_Error string int
  | Status_JSON StatusResponse
  | Proxied http_Response

record dispatch =
  written :: response
  logged :: "log_line list"
  relayed_to :: "string list"
  after :: LoadBalancer

definition handleStatus :: "nat \<Rightarrow> LoadBalancer \<Rightarrow> dispatch" where
  "handleStatus now lb =
     \<lparr>written = Status_JSON
        \<lparr>LoadBalancer = ''active'', Servers = servers lb,
         Algorithm = ''round-robin'', Timestamp = now\<rparr>,
      logged = [], relayed_to = [], after = lb\<rparr>"

text \<open>
  \<open>transport u r\<close> is the outcome of relaying the request \<open>r\<close> to the backend at \<open>u\<close>;
  \<open>relayed_to\<close> lists the backends \<open>proxy.ServeHTTP\<close> was run against.
  \<open>Http_Error msg code\<close> is the call \<open>http.Error(w, msg, code)\<close>.
\<close>

definition ServeHTTP ::
  "nat \<Rightarrow> (string \<Rightarrow> request \<Rightarrow> relay_result) \<Rightarrow> request \<Rightarrow> LoadBalancer \<Rightarrow> dispatch" where
  "ServeHTTP now transport r lb =
     (if Path r = ''/lb-status'' then handleStatus now lb
      else
        case GetNextServer lb of
          (Inl err, lb') \<Rightarrow>
            \<lparr>written = Http_Error (''Service Unavailable: '' @ Error err) StatusServiceUnavailable,
             logged = [], relayed_to = [], after = lb'\<rparr>
        | (Inr server, lb') \<Rightarrow>
            (let u = URL (servers lb' ! server) in
             case transport u r of
               RelayError \<Rightarrow>
                 \<lparr>written = Http_Error ''Service Temporarily Unavailable'' StatusServiceUnavailable,
                  logged = [Routing_request_to u, Proxy_error_for u],
                  relayed_to = [u],
                  after = lb'\<lparr>servers := (servers lb')[server := SetHealth False (servers lb' ! server)]\<rparr>\<rparr>
             | RelayResponse resp \<Rightarrow>
                 \<lparr>written = Proxied resp,
                  logged = [Routing_request_to u, Request_completed u (StatusCode resp)],
                  relayed_to = [u],
                  after = lb'\<rparr>))"

subsection \<open>Round-robin order and example states\<close>

text \<open>
  \<open>rotation k b n\<close> lists \<open>n\<close> positions of a rotation through \<open>0, \<dots>, k - 1\<close> that starts
  at \<open>b mod k\<close>.
\<close>

definition rotation :: "nat \<Rightarrow> nat \<Rightarrow> nat \<Rightarrow> nat list" where
  "rotation k b n = map (\<lambda>j. (b + j) mod k) [0..<n]"

definition lb_ex :: LoadBalancer where
  "lb_ex =
     \<lparr>servers =
        [\<lparr>URL = ''a'', Healthy = True\<rparr>, \<lparr>URL = ''b'', Healthy = False\<rparr>,
         \<lparr>URL = ''c'', Healthy = True\<rparr>],
      current = 0\<rparr>"

definition lb_down :: LoadBalancer where
  "lb_down =
     \<lparr>servers = [\<lparr>URL = ''a'', Healthy = False\<rparr>, \<lparr>URL = ''b'', Healthy = False\<rparr>],
      current = 7\<rparr>"

definition r_api :: request where
  "r_api = \<lparr>Method = ''GET'', Path = ''/api/users''\<rparr>"

definition r_status :: request where
  "r_status = \<lparr>Method = ''GET'', Path = ''/lb-status''\<rparr>"

section \<open>Selection\<close>

subsection \<open>The filtered view\<close>

lemma healthyServers_filter:
  "healthyServers lb = filter (\<lambda>i. Healthy (servers lb ! i)) [0..<length (servers lb)]"
proof -
  have "fold (\<lambda>i hs. if P i then hs @ [i] else hs) xs acc = acc @ filter P xs"
    for P :: "nat \<Rightarrow> bool" and xs acc
    by (induction xs arbitrary: acc) auto
  then show ?thesis
    by (simp add: healthyServers_def IsHealthy_def)
qed

lemma healthyServers_records:
  "map (\<lambda>i. servers lb ! i) (healthyServers lb) = filter Healthy (servers lb)"
proof -
  have "filter Healthy (map (\<lambda>i. servers lb ! i) [0..<length (servers lb)]) =
        map (\<lambda>i. servers lb ! i) (healthyServers lb)"
    by (simp add: healthyServers_filter filter_map comp_def)
  then show ?thesis by (simp add: map_nth)
qed

lemma healthyServers_member:
  "i \<in> set (healthyServers lb) \<longleftrightarrow> i < length (servers lb) \<and> Healthy (servers lb ! i)"
  by (auto simp: healthyServers_filter)

lemma healthyServers_empty:
  "healthyServers lb = [] \<longleftrightarrow> (\<forall>s \<in> set (servers lb). \<not> Healthy s)"
proof -
  have "healthyServers lb = [] \<longleftrightarrow> filter Healthy (servers lb) = []"
    using healthyServers_records [of lb] by (metis map_is_Nil_conv)
  then show ?thesis by (simp add: filter_empty_conv)
qed

lemma healthyServers_all:
  "\<forall>s \<in> set (servers lb). Healthy s \<Longrightarrow> healthyServers lb = [0..<length (servers lb)]"
  by (simp add: healthyServers_filter)

subsection \<open>The index\<close>

lemma index_in_range:
  "0 < m \<Longrightarrow> unat ((x :: 64 word) mod word_of_nat m) < m"
  by (metis (no_types, lifting) le_unat_uoi less_or_eq_imp_le
    linorder_neqE_nat mod_less_divisor unat_mod_distrib)

lemma index_exact:
  "m < 2 ^ 64 \<Longrightarrow> unat ((x :: 64 word) mod word_of_nat m) = unat x mod m"
  by (simp add: unat_mod_distrib unat_of_nat)

subsection \<open>One call\<close>

lemma GetNextServer_none:
  "healthyServers lb = [] \<Longrightarrow> GetNextServer lb = (Inl NoHealthyServers, lb)"
  by (simp add: GetNextServer_def)

lemma GetNextServer_some:
  "healthyServers lb \<noteq> [] \<Longrightarrow>
   GetNextServer lb =
     (Inr (healthyServers lb ! unat ((current lb + 1) mod word_of_nat (length (healthyServers lb)))),
      lb\<lparr>current := current lb + 1\<rparr>)"
  by (simp add: GetNextServer_def Let_def)

lemma GetNextServer_servers: "servers (snd (GetNextServer lb)) = servers lb"
  by (cases "healthyServers lb = []") (simp_all add: GetNextServer_none GetNextServer_some)

lemma GetNextServer_healthy:
  assumes "GetNextServer lb = (Inr i, lb')"
  shows "i < length (servers lb) \<and> Healthy (servers lb ! i)"
proof -
  have ne: "healthyServers lb \<noteq> []"
    using assms by (auto simp: GetNextServer_none)
  then have "i = healthyServers lb !
      unat ((current lb + 1) mod word_of_nat (length (healthyServers lb)))"
    using assms by (simp add: GetNextServer_some)
  moreover have "unat ((current lb + 1) mod word_of_nat (length (healthyServers lb))) <
      length (healthyServers lb)"
    using ne by (intro index_in_range) simp
  ultimately have "i \<in> set (healthyServers lb)"
    by simp
  then show ?thesis by (simp add: healthyServers_member)
qed

text \<open>
  Claim C1. When some record is healthy (and the registry has fewer than \<open>2 ^ 64\<close> records, as
  every Go slice has), \<open>GetNextServer\<close> builds the healthy records in registry order, adds
  one to the counter, and returns the healthy record at position \<open>(c + 1) mod m\<close> of that
  list, where \<open>c\<close> is the counter before the call, \<open>c + 1\<close> its 64-bit successor and \<open>m\<close> the
  number of healthy records.
\<close>

theorem GetNextServer_selects:
  assumes "\<exists>s \<in> set (servers lb). Healthy s" and "length (servers lb) < 2 ^ 64"
  shows "healthyServers lb = filter (\<lambda>i. Healthy (servers lb ! i)) [0..<length (servers lb)] \<and>
         map (\<lambda>i. servers lb ! i) (healthyServers lb) = filter Healthy (servers lb) \<and>
         GetNextServer lb =
           (Inr (healthyServers lb ! (unat (current lb + 1) mod length (healthyServers lb))),
            lb\<lparr>current := current lb + 1\<rparr>)"
proof -
  have ne: "healthyServers lb \<noteq> []"
    using assms(1) by (simp add: healthyServers_empty)
  have "length (healthyServers lb) \<le> length (servers lb)"
    using length_filter_le [of "\<lambda>i. Healthy (servers lb ! i)" "[0..<length (servers lb)]"]
    by (simp add: healthyServers_filter)
  then have "length (healthyServers lb) < 2 ^ 64"
    using assms(2) by simp
  then have "unat ((current lb + 1) mod word_of_nat (length (healthyServers lb))) =
             unat (current lb + 1) mod length (healthyServers lb)"
    by (rule index_exact)
  then have "GetNextServer lb =
           (Inr (healthyServers lb ! (unat (current lb + 1) mod length (healthyServers lb))),
            lb\<lparr>current := current lb + 1\<rparr>)"
    using ne by (simp add: GetNextServer_some)
  then show ?thesis
    using healthyServers_filter healthyServers_records by blast
qed

theorem GetNextServer_selects_witness:
  "(\<exists>s \<in> set (servers lb_ex). Healthy s) \<and> length (servers lb_ex) < 2 ^ 64 \<and>
   healthyServers lb_ex = [0, 2] \<and>
   map (\<lambda>i. servers lb_ex ! i) (healthyServers lb_ex) =
     [\<lparr>URL = ''a'', Healthy = True\<rparr>, \<lparr>URL = ''c'', Healthy = True\<rparr>] \<and>
   GetNextServer lb_ex = (Inr 2, lb_ex\<lparr>current := 1\<rparr>)"
  using GetNextServer_selects [of lb_ex] by (simp add: lb_ex_def)

text \<open>
  Claim C10. When no record is healthy, \<open>GetNextServer\<close> fails and leaves the state, the
  counter with it, as it was; otherwise it succeeds and the only change is the counter,
  which goes up by one.
\<close>

theorem GetNextServer_counter:
  "if \<forall>s \<in> set (servers lb). \<not> Healthy s
   then GetNextServer lb = (Inl NoHealthyServers, lb)
   else (\<exists>i. fst (GetNextServer lb) = Inr i) \<and>
        snd (GetNextServer lb) = lb\<lparr>current := current lb + 1\<rparr>"
proof (cases "healthyServers lb = []")
  case True
  then show ?thesis
    by (simp add: GetNextServer_none healthyServers_empty [symmetric])
next
  case False
  then show ?thesis
    by (simp add: GetNextServer_some healthyServers_empty [symmetric])
qed

theorem GetNextServer_counter_witness:
  "list_all (\<lambda>s. \<not> Healthy s) (servers lb_down) \<and>
   GetNextServer lb_down = (Inl NoHealthyServers, lb_down) \<and>
   \<not> (\<forall>s \<in> set (servers lb_ex). \<not> Healthy s) \<and>
   fst (GetNextServer lb_ex) = Inr 2 \<and> snd (GetNextServer lb_ex) = lb_ex\<lparr>current := 1\<rparr>"
  using GetNextServer_counter [of lb_down] GetNextServer_counter [of lb_ex]
  by (auto simp: lb_down_def lb_ex_def GetNextServer_def healthyServers_def IsHealthy_def)

subsection \<open>Consecutive calls\<close>

lemma GetNextServer_times_servers: "servers (snd (GetNextServer_times n lb)) = servers lb"
proof (induction n arbitrary: lb)
  case 0
  then show ?case by simp
next
  case (Suc n)
  obtain r lb' where g: "GetNextServer lb = (r, lb')" by (cases "GetNextServer lb")
  then have "servers lb' = servers lb" using GetNextServer_servers [of lb] by simp
  with Suc [of lb'] g show ?case by (simp add: split_beta)
qed

lemma GetNextServer_times_healthy:
  "Inr i \<in> set (fst (GetNextServer_times n lb)) \<Longrightarrow>
   i < length (servers lb) \<and> Healthy (servers lb ! i)"
proof (induction n arbitrary: lb)
  case 0
  then show ?case by simp
next
  case (Suc n)
  obtain r lb' where g: "GetNextServer lb = (r, lb')" by (cases "GetNextServer lb")
  then have s: "servers lb' = servers lb" using GetNextServer_servers [of lb] by simp
  from Suc.prems g have "r = Inr i \<or> Inr i \<in> set (fst (GetNextServer_times n lb'))"
    by (auto simp: split_beta)
  then show ?case
  proof
    assume "r = Inr i"
    with g show ?thesis using GetNextServer_healthy by blast
  next
    assume "Inr i \<in> set (fst (GetNextServer_times n lb'))"
    then show ?thesis using Suc.IH [of lb'] s by simp
  qed
qed

lemma GetNextServer_times_none:
  "healthyServers lb = [] \<Longrightarrow>
   GetNextServer_times n lb = (replicate n (Inl NoHealthyServers), lb)"
  by (induction n) (simp_all add: GetNextServer_none)

text \<open>
  Claim C3. A record whose health flag is false is not the record \<open>GetNextServer\<close> returns,
  and it is returned by none of any number of calls that follow one another while the
  flag stays false (selection changes no flag).
\<close>

theorem GetNextServer_skips_unhealthy:
  assumes "j < length (servers lb)" and "\<not> Healthy (servers lb ! j)"
  shows "fst (GetNextServer lb) \<noteq> Inr j \<and> Inr j \<notin> set (fst (GetNextServer_times n lb))"
proof -
  have "fst (GetNextServer lb) \<noteq> Inr j"
    using assms(2) GetNextServer_healthy [of lb j "snd (GetNextServer lb)"]
    by (metis prod.collapse)
  moreover have "Inr j \<notin> set (fst (GetNextServer_times n lb))"
    using assms(2) GetNextServer_times_healthy by blast
  ultimately show ?thesis by simp
qed

theorem GetNextServer_skips_unhealthy_witness:
  "1 < length (servers lb_ex) \<and> \<not> Healthy (servers lb_ex ! 1) \<and>
   fst (GetNextServer lb_ex) \<noteq> Inr 1 \<and> Inr 1 \<notin> set (fst (GetNextServer_times 3 lb_ex))"
  using GetNextServer_skips_unhealthy [of 1 lb_ex 3] by (simp add: lb_ex_def)

subsection \<open>Rotation when every record is healthy\<close>

lemma rotation_add: "rotation k b (n + m) = rotation k b n @ rotation k (b + n) m"
proof -
  have "[0..<n + m] = [0..<n] @ [n..<n + m]"
    using upt_add_eq_append [of 0 n m] by simp
  moreover have "[n..<n + m] = map (\<lambda>j. n + j) [0..<m]"
    using map_add_upt [of n m] by (simp only: add.commute)
  ultimately have "[0..<n + m] = [0..<n] @ map (\<lambda>j. n + j) [0..<m]"
    by simp
  then show ?thesis
    by (simp add: rotation_def comp_def add.assoc)
qed

lemma count_upt: "count_list [0..<k] i = (if i < k then 1 else 0)"
  by (induction k) auto

lemma count_rotate: "count_list (rotate a xs) i = count_list xs i"
proof -
  have "count_list (take n xs @ drop n xs) i = count_list xs i" for n
    by simp
  then have "count_list (take n xs) i + count_list (drop n xs) i = count_list xs i" for n
    by (simp only: count_list_append)
  then show ?thesis
    by (simp add: rotate_drop_take add.commute)
qed

lemma rotation_full: "rotation k b k = rotate b [0..<k]"
  unfolding rotation_def by (rule nth_equalityI) (simp_all add: nth_rotate)

lemma count_rotation_full: "i < k \<Longrightarrow> count_list (rotation k b k) i = 1"
  by (simp add: rotation_full count_rotate count_upt)

lemma count_rotation_short:
  assumes "i < k" "n \<le> k"
  shows "count_list (rotation k b n) i \<le> 1"
proof -
  have "rotation k b k = rotation k b n @ rotation k (b + n) (k - n)"
    using assms(2) rotation_add [of k b n "k - n"] by simp
  then have "count_list (rotation k b n) i \<le> count_list (rotation k b k) i"
    by simp
  then show ?thesis using assms(1) by (simp add: count_rotation_full)
qed

lemma count_rotation_periods:
  "i < k \<Longrightarrow>
   count_list (rotation k b (q * k + r)) i = q + count_list (rotation k (b + q * k) r) i"
proof (induction q arbitrary: b)
  case 0
  then show ?case by simp
next
  case (Suc q)
  have "rotation k b (Suc q * k + r) = rotation k b k @ rotation k (b + k) (q * k + r)"
    using rotation_add [of k b k "q * k + r"] by (simp add: add.assoc)
  then show ?case
    using Suc by (simp add: count_rotation_full add.assoc add.commute add.left_commute)
qed

lemma ceil_div:
  assumes "0 < k" "n mod k \<noteq> 0"
  shows "(n + k - 1) div k = n div k + (1::nat)"
proof -
  define r where "r = n mod k - 1"
  have r: "n mod k = Suc r" using assms(2) by (simp add: r_def)
  have "Suc r < k" using assms(1) r mod_less_divisor [of k n] by simp
  then have rk: "r div k = 0" by simp
  have "n = (n div k) * k + Suc r" using r div_mult_mod_eq [of n k] by simp
  then have "n + k - 1 = (n div k) * k + Suc r + k - 1" by simp
  also have "\<dots> = r + (n div k + 1) * k" by (simp add: add_mult_distrib)
  finally have "(n + k - 1) div k = (r + (n div k + 1) * k) div k" by simp
  also have "\<dots> = (n div k + 1) + r div k"
    using assms(1) div_mult_self1 [of k r "n div k + 1"] by blast
  finally show ?thesis using rk by simp
qed

lemma count_rotation:
  assumes "i < k"
  shows "count_list (rotation k b n) i \<in> {n div k, (n + k - 1) div k}"
proof (cases "n mod k = 0")
  case True
  then have n: "(n div k) * k + 0 = n" by auto
  have "count_list (rotation k b ((n div k) * k + 0)) i =
        n div k + count_list (rotation k (b + (n div k) * k) 0) i"
    using assms by (rule count_rotation_periods)
  then have "count_list (rotation k b n) i = n div k"
    unfolding n by (simp add: rotation_def)
  then show ?thesis by simp
next
  case False
  have "n mod k \<le> k" using assms by simp
  then have le: "count_list (rotation k (b + (n div k) * k) (n mod k)) i \<le> 1"
    using assms count_rotation_short by blast
  have n: "(n div k) * k + n mod k = n" by simp
  have "count_list (rotation k b ((n div k) * k + n mod k)) i =
        n div k + count_list (rotation k (b + (n div k) * k) (n mod k)) i"
    using assms by (rule count_rotation_periods)
  then have "count_list (rotation k b n) i =
        n div k + count_list (rotation k (b + (n div k) * k) (n mod k)) i"
    unfolding n .
  then have c: "count_list (rotation k b n) i = n div k \<or>
        count_list (rotation k b n) i = n div k + 1"
    using le by linarith
  have "(n + k - 1) div k = n div k + 1"
    using assms False by (intro ceil_div) auto
  with c show ?thesis by auto
qed

lemma count_list_Inr: "count_list (map Inr xs) (Inr i :: 'a + 'b) = count_list xs i"
  by (induction xs) auto

lemma GetNextServer_all:
  assumes "\<forall>s \<in> set (servers lb). Healthy s" and "0 < length (servers lb)"
    and "length (servers lb) < 2 ^ 64"
  shows "GetNextServer lb =
     (Inr (unat (current lb + 1) mod length (servers lb)), lb\<lparr>current := current lb + 1\<rparr>)"
proof -
  have hs: "healthyServers lb = [0..<length (servers lb)]"
    using assms(1) by (rule healthyServers_all)
  have "unat ((current lb + 1) mod word_of_nat (length (servers lb))) =
        unat (current lb + 1) mod length (servers lb)"
    using assms(3) by (rule index_exact)
  then show ?thesis
    using assms(2) hs by (simp add: GetNextServer_def Let_def)
qed

lemma GetNextServer_times_all:
  assumes "\<forall>s \<in> set (servers lb). Healthy s" and "0 < length (servers lb)"
    and "length (servers lb) < 2 ^ 64"
  shows "fst (GetNextServer_times n lb) =
         map (\<lambda>j. Inr (unat (current lb + 1 + word_of_nat j) mod length (servers lb))) [0..<n]"
  using assms
proof (induction n arbitrary: lb)
  case 0
  then show ?case by simp
next
  case (Suc n)
  let ?lb' = "lb\<lparr>current := current lb + 1\<rparr>"
  have g: "GetNextServer lb = (Inr (unat (current lb + 1) mod length (servers lb)), ?lb')"
    using Suc.prems by (rule GetNextServer_all)
  have "fst (GetNextServer_times n ?lb') =
         map (\<lambda>j. Inr (unat (current ?lb' + 1 + word_of_nat j) mod length (servers ?lb'))) [0..<n]"
    using Suc.prems by (intro Suc.IH) simp_all
  then have rest: "fst (GetNextServer_times n ?lb') =
         map (\<lambda>j. Inr (unat (current lb + 1 + word_of_nat (Suc j)) mod length (servers lb))) [0..<n]"
    by (simp add: add.assoc add.commute add.left_commute)
  have "[0..<Suc n] = 0 # map Suc [0..<n]"
    by (simp add: upt_conv_Cons map_Suc_upt del: upt_Suc)
  then have "map (\<lambda>j. Inr (unat (current lb + 1 + word_of_nat j) mod length (servers lb))) [0..<Suc n] =
        Inr (unat (current lb + 1) mod length (servers lb)) #
        map (\<lambda>j. Inr (unat (current lb + 1 + word_of_nat (Suc j)) mod length (servers lb))) [0..<n]"
    by (simp add: comp_def del: upt_Suc of_nat_Suc)
  then have "map (\<lambda>j. Inr (unat (current lb + 1 + word_of_nat j) mod length (servers lb))) [0..<Suc n] =
        Inr (unat (current lb + 1) mod length (servers lb)) # fst (GetNextServer_times n ?lb')"
    by (simp only: rest)
  moreover have "fst (GetNextServer_times (Suc n) lb) =
        Inr (unat (current lb + 1) mod length (servers lb)) # fst (GetNextServer_times n ?lb')"
    by (simp add: g split_beta)
  ultimately show ?case by simp
qed

lemma counter_offset:
  assumes "unat c + n < 2 ^ 64 \<or> k dvd 2 ^ 64" and "j < n"
  shows "unat ((c :: 64 word) + 1 + word_of_nat j) mod k = (unat c + 1 + j) mod k"
proof -
  have u: "unat (c + 1 + word_of_nat j) = (unat c + 1 + j) mod 2 ^ 64"
    by (simp add: unat_word_ariths unat_of_nat mod_simps)
  from assms(1) show ?thesis
  proof
    assume "unat c + n < 2 ^ 64"
    then have "unat c + 1 + j < 2 ^ 64" using assms(2) by simp
    then show ?thesis using u by simp
  next
    assume "k dvd 2 ^ 64"
    then show ?thesis using u by (simp add: mod_mod_cancel)
  qed
qed

text \<open>
  Claim C2, as stated, fails where the counter wraps. With three healthy records and the
  counter at \<open>2 ^ 64 - 2\<close>, the first call moves the counter to \<open>2 ^ 64 - 1\<close>, a multiple of
  three, and the second to \<open>0\<close>: both select record 0, which is then chosen twice in two
  calls, neither \<open>\<lfloor>2/3\<rfloor>\<close> nor \<open>\<lceil>2/3\<rceil>\<close> times.
\<close>

theorem GetNextServer_times_wrap_counterexample:
  "fst (GetNextServer_times 2 (NewLoadBalancer\<lparr>current := - 2\<rparr>)) = [Inr 0, Inr 0] \<and>
   count_list (fst (GetNextServer_times 2 (NewLoadBalancer\<lparr>current := - 2\<rparr>))) (Inr 0)
     \<notin> {2 div 3, (2 + 3 - 1) div 3}"
  by code_simp

text \<open>
  Claim C2, amended. In a registry of \<open>k\<close> records that are all healthy, \<open>n\<close> consecutive calls
  during which the counter does not pass \<open>2 ^ 64 - 1\<close> (or with \<open>k\<close> a divisor of \<open>2 ^ 64\<close>)
  select the records in registry order, starting at position \<open>(c + 1) mod k\<close> for the
  counter \<open>c\<close> before the first call, and each record \<open>\<lfloor>n/k\<rfloor>\<close> or \<open>\<lceil>n/k\<rceil>\<close> times.
\<close>

theorem GetNextServer_times_rotation:
  assumes "\<forall>s \<in> set (servers lb). Healthy s"
    and "k = length (servers lb)" and "0 < k" and "k < 2 ^ 64"
    and "unat (current lb) + n < 2 ^ 64 \<or> k dvd 2 ^ 64"
  shows "fst (GetNextServer_times n lb) =
           map (\<lambda>j. Inr ((unat (current lb) + 1 + j) mod k)) [0..<n] \<and>
         (\<forall>i < k. count_list (fst (GetNextServer_times n lb)) (Inr i)
            \<in> {n div k, (n + k - 1) div k})"
proof -
  have "fst (GetNextServer_times n lb) =
         map (\<lambda>j. Inr (unat (current lb + 1 + word_of_nat j) mod k)) [0..<n]"
    using assms(1-4) by (simp add: GetNextServer_times_all)
  also have "\<dots> = map (\<lambda>j. Inr ((unat (current lb) + 1 + j) mod k)) [0..<n]"
    using assms(5) by (intro map_cong refl) (simp add: counter_offset)
  finally have sel: "fst (GetNextServer_times n lb) =
      map (\<lambda>j. Inr ((unat (current lb) + 1 + j) mod k)) [0..<n]" .
  then have "fst (GetNextServer_times n lb) = map Inr (rotation k (unat (current lb) + 1) n)"
    by (simp add: rotation_def comp_def)
  then have "count_list (fst (GetNextServer_times n lb)) (Inr i) \<in> {n div k, (n + k - 1) div k}"
    if "i < k" for i
    using that count_rotation [of i k "unat (current lb) + 1" n] by (simp only: count_list_Inr)
  with sel show ?thesis by blast
qed

theorem GetNextServer_times_rotation_witness:
  "list_all Healthy (servers NewLoadBalancer) \<and> 3 = length (servers NewLoadBalancer) \<and>
   (0::nat) < 3 \<and> (3::nat) < 2 ^ 64 \<and>
   (unat (current NewLoadBalancer) + 7 < 2 ^ 64 \<or> (3::nat) dvd 2 ^ 64) \<and>
   fst (GetNextServer_times 7 NewLoadBalancer) =
     [Inr 1, Inr 2, Inr 0, Inr 1, Inr 2, Inr 0, Inr 1] \<and>
   count_list (fst (GetNextServer_times 7 NewLoadBalancer)) (Inr 0) \<in> {7 div 3, (7 + 3 - 1) div 3} \<and>
   count_list (fst (GetNextServer_times 7 NewLoadBalancer)) (Inr 1) \<in> {7 div 3, (7 + 3 - 1) div 3} \<and>
   count_list (fst (GetNextServer_times 7 NewLoadBalancer)) (Inr 2) \<in> {7 div 3, (7 + 3 - 1) div 3}"
  using GetNextServer_times_rotation [of NewLoadBalancer 3 7]
  by (simp add: NewLoadBalancer_def upt_rec)

section \<open>Health monitor\<close>

lemma SetHealth_simps [simp]:
  "URL (SetHealth h s) = URL s" "Healthy (SetHealth h s) = h"
  by (simp_all add: SetHealth_def)

lemma HealthCheck_server_fst:
  "fst (HealthCheck_server res_err server) = SetHealth (classification res_err) server"
  by (simp add: HealthCheck_server_def classification_def Let_def split: get_result.split)

lemma HealthCheck_server_snd:
  "snd (HealthCheck_server res_err server) =
     (if classification res_err \<noteq> Healthy server
      then [case res_err of
              Err \<Rightarrow> Health_check_failed (URL server)
            | Res res \<Rightarrow>
                if StatusCode res = StatusOK then Is_back_up (URL server)
                else Is_down (URL server)]
      else case res_err of Err \<Rightarrow> [] | Res res \<Rightarrow> [Is_still_up (URL server)])"
  by (auto simp: HealthCheck_server_def classification_def IsHealthy_def Let_def
      split: get_result.split)

text \<open>
  The pass over the first \<open>n\<close> records has rewritten exactly those, each from its own
  probe, and has appended their lines in order.
\<close>

lemma HealthCheck_fold:
  assumes "n \<le> length (servers lb)"
  shows "fold (HealthCheck_step Get) [0..<n] (lb, out) =
     (lb\<lparr>servers :=
          map (\<lambda>i. fst (HealthCheck_server (Get i (URL (servers lb ! i) @ ''/health''))
                 (servers lb ! i))) [0..<n]
          @ drop n (servers lb)\<rparr>,
      out @ concat (map (\<lambda>i. snd (HealthCheck_server (Get i (URL (servers lb ! i) @ ''/health''))
                (servers lb ! i))) [0..<n]))"
  using assms
proof (induction n)
  case 0
  then show ?case by simp
next
  case (Suc n)
  let ?f = "\<lambda>i. fst (HealthCheck_server (Get i (URL (servers lb ! i) @ ''/health''))
                 (servers lb ! i))"
  let ?g = "\<lambda>i. snd (HealthCheck_server (Get i (URL (servers lb ! i) @ ''/health''))
                 (servers lb ! i))"
  let ?S = "map ?f [0..<n] @ drop n (servers lb)"
  have n: "n < length (servers lb)" using Suc.prems by simp
  have IH: "fold (HealthCheck_step Get) [0..<n] (lb, out) =
     (lb\<lparr>servers := ?S\<rparr>, out @ concat (map ?g [0..<n]))"
    using Suc by simp
  have nth: "?S ! n = servers lb ! n"
    using n by (simp add: nth_append)
  have "drop n (servers lb) = servers lb ! n # drop (Suc n) (servers lb)"
    using n by (simp add: Cons_nth_drop_Suc)
  then have upd: "?S[n := ?f n] = map ?f [0..<Suc n] @ drop (Suc n) (servers lb)"
    by (simp add: list_update_append)
  have "HealthCheck_step Get n (lb\<lparr>servers := ?S\<rparr>, out @ concat (map ?g [0..<n])) =
        (lb\<lparr>servers := ?S[n := ?f n]\<rparr>, (out @ concat (map ?g [0..<n])) @ ?g n)"
    by (simp add: HealthCheck_step_def split_beta Let_def nth)
  then show ?case
    by (simp only: upt_Suc_append [OF le0] fold_append comp_apply IH fold_simps upd
        map_append concat_append list.map concat.simps append_Nil2 append_assoc)
qed

lemma HealthCheck_cycle_eq:
  "HealthCheck_cycle Get lb =
     (lb\<lparr>servers :=
          map (\<lambda>i. SetHealth (classification (Get i (URL (servers lb ! i) @ ''/health'')))
                 (servers lb ! i))
            [0..<length (servers lb)]\<rparr>,
      Performing_health_checks #
      concat (map (\<lambda>i. snd (HealthCheck_server (Get i (URL (servers lb ! i) @ ''/health''))
                (servers lb ! i)))
        [0..<length (servers lb)]))"
  by (simp add: HealthCheck_cycle_def HealthCheck_fold HealthCheck_server_fst)

lemma HealthCheck_cycle_length:
  "length (servers (fst (HealthCheck_cycle Get lb))) = length (servers lb)"
  by (simp add: HealthCheck_cycle_eq)

lemma HealthCheck_cycle_nth:
  "i < length (servers lb) \<Longrightarrow>
   servers (fst (HealthCheck_cycle Get lb)) ! i =
     SetHealth (classification (Get i (URL (servers lb ! i) @ ''/health''))) (servers lb ! i)"
  by (simp add: HealthCheck_cycle_eq)

text \<open>
  Claim C5. After a pass of the health monitor, every record is what \<open>SetHealth\<close> makes of
  it with the flag false when its probe failed at the transport level, true when the probe
  completed with status 200, and false when it completed with any other status; whatever
  the flag was before.
\<close>

theorem HealthCheck_cycle_commits:
  assumes "i < length (servers lb)"
  shows "servers (fst (HealthCheck_cycle Get lb)) ! i =
     SetHealth
       (case Get i (URL (servers lb ! i) @ ''/health'') of
          Err \<Rightarrow> False
        | Res res \<Rightarrow> StatusCode res = 200)
       (servers lb ! i)"
  using assms
  by (simp add: HealthCheck_cycle_nth classification_def StatusOK_def split: get_result.split)

theorem HealthCheck_cycle_commits_witness:
  "2 < length (servers lb_ex) \<and>
   servers (fst (HealthCheck_cycle (\<lambda>i u. Res \<lparr>StatusCode = 200, Body = ''ok''\<rparr>) lb_ex)) ! 1 =
     \<lparr>URL = ''b'', Healthy = True\<rparr> \<and>
   servers (fst (HealthCheck_cycle (\<lambda>i u. Res \<lparr>StatusCode = 204, Body = ''''\<rparr>) lb_ex)) ! 2 =
     \<lparr>URL = ''c'', Healthy = False\<rparr> \<and>
   servers (fst (HealthCheck_cycle (\<lambda>i u. Err) lb_ex)) ! 0 = \<lparr>URL = ''a'', Healthy = False\<rparr>"
  using HealthCheck_cycle_commits [of 1 lb_ex "\<lambda>i u. Res \<lparr>StatusCode = 200, Body = ''ok''\<rparr>"]
    HealthCheck_cycle_commits [of 2 lb_ex "\<lambda>i u. Res \<lparr>StatusCode = 204, Body = ''''\<rparr>"]
    HealthCheck_cycle_commits [of 0 lb_ex "\<lambda>i u. Err"]
  by (simp add: lb_ex_def SetHealth_def)

text \<open>
  Claim C7, as stated, fails for a record that stays unreachable. From the initial state,
  with every probe failing at the transport level, the first pass logs one went-down line
  per record; in the second pass every classification repeats, and the pass logs nothing
  but its opening line: no heartbeat.
\<close>

theorem HealthCheck_cycle_silent_counterexample:
  "snd (HealthCheck_cycle (\<lambda>i u. Err) NewLoadBalancer) =
     [Performing_health_checks,
      Health_check_failed ''http://host.docker.internal:8081'',
      Health_check_failed ''http://host.docker.internal:8082'',
      Health_check_failed ''http://host.docker.internal:8083''] \<and>
   snd (HealthCheck_cycle (\<lambda>i u. Err) (fst (HealthCheck_cycle (\<lambda>i u. Err) NewLoadBalancer))) =
     [Performing_health_checks]"
  by code_simp

text \<open>
  Claim C7, amended. The log of a pass is its opening line followed, record by record in
  registry order, by: one transition line (check failed, back up, or down) when the new
  classification differs from the flag the record had when probed; one heartbeat line when
  it does not differ and the probe completed with a response; and nothing when it does not
  differ and the probe failed at the transport level. In a pass that directly follows
  another, with no write to the flags in between, the flag a record has when probed is its
  classification in the pass before.
\<close>

theorem HealthCheck_cycle_log:
  "snd (HealthCheck_cycle Get lb) =
     Performing_health_checks #
     concat (map (\<lambda>i.
       let server = servers lb ! i; res_err = Get i (URL server @ ''/health'') in
       if classification res_err \<noteq> Healthy server
       then [case res_err of
               Err \<Rightarrow> Health_check_failed (URL server)
             | Res res \<Rightarrow>
                 if StatusCode res = StatusOK then Is_back_up (URL server)
                 else Is_down (URL server)]
       else case res_err of Err \<Rightarrow> [] | Res res \<Rightarrow> [Is_still_up (URL server)])
       [0..<length (servers lb)]) \<and>
   snd (HealthCheck_cycle Get' (fst (HealthCheck_cycle Get lb))) =
     Performing_health_checks #
     concat (map (\<lambda>i.
       let u = URL (servers lb ! i); before = Get i (u @ ''/health'');
           res_err = Get' i (u @ ''/health'') in
       if classification res_err \<noteq> classification before
       then [case res_err of
               Err \<Rightarrow> Health_check_failed u
             | Res res \<Rightarrow> if StatusCode res = StatusOK then Is_back_up u else Is_down u]
       else case res_err of Err \<Rightarrow> [] | Res res \<Rightarrow> [Is_still_up u])
       [0..<length (servers lb)])"
proof -
  have one: "snd (HealthCheck_cycle G l) =
     Performing_health_checks #
     concat (map (\<lambda>i.
       let server = servers l ! i; res_err = G i (URL server @ ''/health'') in
       if classification res_err \<noteq> Healthy server
       then [case res_err of
               Err \<Rightarrow> Health_check_failed (URL server)
             | Res res \<Rightarrow>
                 if StatusCode res = StatusOK then Is_back_up (URL server)
                 else Is_down (URL server)]
       else case res_err of Err \<Rightarrow> [] | Res res \<Rightarrow> [Is_still_up (URL server)])
       [0..<length (servers l)])" for G l
    by (simp add: HealthCheck_cycle_eq HealthCheck_server_snd Let_def)
  let ?lb1 = "fst (HealthCheck_cycle Get lb)"
  have "map (\<lambda>i.
       let server = servers ?lb1 ! i; res_err = Get' i (URL server @ ''/health'') in
       if classification res_err \<noteq> Healthy server
       then [case res_err of
               Err \<Rightarrow> Health_check_failed (URL server)
             | Res res \<Rightarrow>
                 if StatusCode res = StatusOK then Is_back_up (URL server)
                 else Is_down (URL server)]
       else case res_err of Err \<Rightarrow> [] | Res res \<Rightarrow> [Is_still_up (URL server)])
       [0..<length (servers lb)] =
     map (\<lambda>i.
       let u = URL (servers lb ! i); before = Get i (u @ ''/health'');
           res_err = Get' i (u @ ''/health'') in
       if classification res_err \<noteq> classification before
       then [case res_err of
               Err \<Rightarrow> Health_check_failed u
             | Res res \<Rightarrow> if StatusCode res = StatusOK then Is_back_up u else Is_down u]
       else case res_err of Err \<Rightarrow> [] | Res res \<Rightarrow> [Is_still_up u])
       [0..<length (servers lb)]"
    by (rule map_cong [OF refl])
      (simp add: HealthCheck_cycle_nth Let_def split: get_result.split)
  then have two: "snd (HealthCheck_cycle Get' ?lb1) =
     Performing_health_checks #
     concat (map (\<lambda>i.
       let u = URL (servers lb ! i); before = Get i (u @ ''/health'');
           res_err = Get' i (u @ ''/health'') in
       if classification res_err \<noteq> classification before
       then [case res_err of
               Err \<Rightarrow> Health_check_failed u
             | Res res \<Rightarrow> if StatusCode res = StatusOK then Is_back_up u else Is_down u]
       else case res_err of Err \<Rightarrow> [] | Res res \<Rightarrow> [Is_still_up u])
       [0..<length (servers lb)])"
    using one [of Get' ?lb1] by (simp only: HealthCheck_cycle_length)
  from one [of Get lb] two show ?thesis by (rule conjI)
qed

section \<open>Forwarder and status reporter\<close>

lemma ServeHTTP_none:
  assumes "healthyServers lb = []" and "Path r \<noteq> ''/lb-status''"
  shows "ServeHTTP now transport r lb =
     \<lparr>written = Http_Error ''Service Unavailable: no healthy servers available'' 503,
      logged = [], relayed_to = [], after = lb\<rparr>"
  using assms by (simp add: ServeHTTP_def GetNextServer_none StatusServiceUnavailable_def)

text \<open>
  Claim C4. While every health flag is false, \<open>GetNextServer\<close> fails with the
  no-healthy-servers error, and so does each of any number of consecutive calls; a request
  for a path other than \<open>/lb-status\<close> is answered with status 503 and the body
  \<open>Service Unavailable: no healthy servers available\<close>, nothing is relayed to a backend;
  and the state is left as it was, so that the same holds for the next call.
\<close>

theorem no_healthy_server_unavailable:
  assumes "\<forall>s \<in> set (servers lb). \<not> Healthy s" and "Path r \<noteq> ''/lb-status''"
  shows "GetNextServer lb = (Inl NoHealthyServers, lb) \<and>
         GetNextServer_times n lb = (replicate n (Inl NoHealthyServers), lb) \<and>
         ServeHTTP now transport r lb =
           \<lparr>written = Http_Error ''Service Unavailable: no healthy servers available'' 503,
            logged = [], relayed_to = [], after = lb\<rparr>"
proof -
  have "healthyServers lb = []"
    using assms(1) by (simp add: healthyServers_empty)
  then show ?thesis
    using assms(2) by (simp add: GetNextServer_none GetNextServer_times_none ServeHTTP_none)
qed

theorem no_healthy_server_unavailable_witness:
  "list_all (\<lambda>s. \<not> Healthy s) (servers lb_down) \<and> Path r_api \<noteq> ''/lb-status'' \<and>
   GetNextServer lb_down = (Inl NoHealthyServers, lb_down) \<and>
   GetNextServer_times 2 lb_down = ([Inl NoHealthyServers, Inl NoHealthyServers], lb_down) \<and>
   ServeHTTP 0 (\<lambda>u r. RelayResponse \<lparr>StatusCode = 200, Body = ''ok''\<rparr>) r_api lb_down =
     \<lparr>written = Http_Error ''Service Unavailable: no healthy servers available'' 503,
      logged = [], relayed_to = [], after = lb_down\<rparr>"
  using no_healthy_server_unavailable
    [of lb_down r_api 2 0 "\<lambda>u r. RelayResponse \<lparr>StatusCode = 200, Body = ''ok''\<rparr>"]
  by (simp add: lb_down_def r_api_def numeral_2_eq_2)

lemma ServeHTTP_relay_error:
  assumes "Path r \<noteq> ''/lb-status''" and "GetNextServer lb = (Inr b, lb')"
    and "transport (URL (servers lb ! b)) r = RelayError"
  shows "ServeHTTP now transport r lb =
     \<lparr>written = Http_Error ''Service Temporarily Unavailable'' 503,
      logged = [Routing_request_to (URL (servers lb ! b)), Proxy_error_for (URL (servers lb ! b))],
      relayed_to = [URL (servers lb ! b)],
      after = lb'\<lparr>servers := (servers lb)[b := SetHealth False (servers lb ! b)]\<rparr>\<rparr>"
proof -
  have "servers lb' = servers lb"
    using assms(2) GetNextServer_servers [of lb] by simp
  then show ?thesis
    using assms by (simp add: ServeHTTP_def StatusServiceUnavailable_def Let_def)
qed

text \<open>
  Claim C6. When the relay to the selected backend \<open>b\<close> fails at the transport level,
  \<open>ServeHTTP\<close> answers with status 503, has relayed to \<open>b\<close> and to no other backend, and
  leaves the registry with the flag of \<open>b\<close> false and nothing else changed; the next call
  of \<open>GetNextServer\<close>, and any number of consecutive calls, do not return \<open>b\<close>.
\<close>

theorem ServeHTTP_relay_failure:
  assumes "Path r \<noteq> ''/lb-status''" and "GetNextServer lb = (Inr b, lb')"
    and "transport (URL (servers lb ! b)) r = RelayError"
  shows "written (ServeHTTP now transport r lb) =
           Http_Error ''Service Temporarily Unavailable'' 503 \<and>
         relayed_to (ServeHTTP now transport r lb) = [URL (servers lb ! b)] \<and>
         servers (after (ServeHTTP now transport r lb)) =
           (servers lb)[b := (servers lb ! b)\<lparr>Healthy := False\<rparr>] \<and>
         fst (GetNextServer (after (ServeHTTP now transport r lb))) \<noteq> Inr b \<and>
         Inr b \<notin> set (fst (GetNextServer_times n (after (ServeHTTP now transport r lb))))"
proof -
  let ?lb2 = "after (ServeHTTP now transport r lb)"
  have d: "ServeHTTP now transport r lb =
     \<lparr>written = Http_Error ''Service Temporarily Unavailable'' 503,
      logged = [Routing_request_to (URL (servers lb ! b)), Proxy_error_for (URL (servers lb ! b))],
      relayed_to = [URL (servers lb ! b)],
      after = lb'\<lparr>servers := (servers lb)[b := SetHealth False (servers lb ! b)]\<rparr>\<rparr>"
    using assms by (rule ServeHTTP_relay_error)
  have b: "b < length (servers lb)"
    using assms(2) GetNextServer_healthy by blast
  have s: "servers ?lb2 = (servers lb)[b := (servers lb ! b)\<lparr>Healthy := False\<rparr>]"
    by (simp add: d SetHealth_def)
  then have "\<not> Healthy (servers ?lb2 ! b)"
    using b by simp
  then have "\<And>lb''. GetNextServer ?lb2 \<noteq> (Inr b, lb'')"
    and "Inr b \<notin> set (fst (GetNextServer_times n ?lb2))"
    using GetNextServer_healthy GetNextServer_times_healthy by blast+
  then have "fst (GetNextServer ?lb2) \<noteq> Inr b"
    and "Inr b \<notin> set (fst (GetNextServer_times n ?lb2))"
    by (metis prod.collapse)+
  then show ?thesis
    using s by (simp add: d)
qed

theorem ServeHTTP_relay_failure_witness:
  "Path r_api \<noteq> ''/lb-status'' \<and> GetNextServer lb_ex = (Inr 2, lb_ex\<lparr>current := 1\<rparr>) \<and>
   (\<lambda>u r. RelayError) (URL (servers lb_ex ! 2)) r_api = RelayError \<and>
   written (ServeHTTP 0 (\<lambda>u r. RelayError) r_api lb_ex) =
     Http_Error ''Service Temporarily Unavailable'' 503 \<and>
   relayed_to (ServeHTTP 0 (\<lambda>u r. RelayError) r_api lb_ex) = [''c''] \<and>
   servers (after (ServeHTTP 0 (\<lambda>u r. RelayError) r_api lb_ex)) =
     [\<lparr>URL = ''a'', Healthy = True\<rparr>, \<lparr>URL = ''b'', Healthy = False\<rparr>,
      \<lparr>URL = ''c'', Healthy = False\<rparr>] \<and>
   fst (GetNextServer (after (ServeHTTP 0 (\<lambda>u r. RelayError) r_api lb_ex))) \<noteq> Inr 2 \<and>
   Inr 2 \<notin> set (fst (GetNextServer_times 4 (after (ServeHTTP 0 (\<lambda>u r. RelayError) r_api lb_ex))))"
proof -
  have g: "GetNextServer lb_ex = (Inr 2, lb_ex\<lparr>current := 1\<rparr>)"
    by (simp add: lb_ex_def healthyServers_def IsHealthy_def GetNextServer_def)
  have p: "Path r_api \<noteq> ''/lb-status''"
    by (simp add: r_api_def)
  show ?thesis
    using g p ServeHTTP_relay_failure [OF p g, of "\<lambda>u r. RelayError" 0 4]
    by (simp add: lb_ex_def)
qed

text \<open>
  Claim C9. A request for the path \<open>/lb-status\<close> is answered by \<open>handleStatus\<close> with the
  activity flag \<open>active\<close>, the records of the registry as they are (address and health flag
  of each, in registry order), the algorithm name \<open>round-robin\<close> and the time of the call;
  nothing is relayed, and the state, flags and addresses and length and counter, is left as
  it was.
\<close>

theorem ServeHTTP_status:
  assumes "Path r = ''/lb-status''"
  shows "ServeHTTP now transport r lb = handleStatus now lb \<and>
   handleStatus now lb =
     \<lparr>written = Status_JSON
        \<lparr>LoadBalancer = ''active'', Servers = servers lb,
         Algorithm = ''round-robin'', Timestamp = now\<rparr>,
      logged = [], relayed_to = [], after = lb\<rparr>"
  using assms by (simp add: ServeHTTP_def handleStatus_def)

theorem ServeHTTP_status_witness:
  "Path r_status = ''/lb-status'' \<and>
   ServeHTTP 5 (\<lambda>u r. RelayError) r_status lb_ex = handleStatus 5 lb_ex \<and>
   ServeHTTP 5 (\<lambda>u r. RelayError) r_status lb_ex =
     \<lparr>written = Status_JSON
        \<lparr>LoadBalancer = ''active'',
         Servers = [\<lparr>URL = ''a'', Healthy = True\<rparr>, \<lparr>URL = ''b'', Healthy = False\<rparr>,
                    \<lparr>URL = ''c'', Healthy = True\<rparr>],
         Algorithm = ''round-robin'', Timestamp = 5\<rparr>,
      logged = [], relayed_to = [], after = lb_ex\<rparr>"
  using ServeHTTP_status [of r_status 5 "\<lambda>u r. RelayError" lb_ex]
  by (simp add: r_status_def lb_ex_def)

section \<open>The registry is fixed\<close>

text \<open>
  Claim C8. Selection, once or any number of times, a pass of the health monitor, the
  status report and the dispatch of any request leave the list of the records' addresses,
  and with it the length of the registry, as it was. A record has no other field than
  its address and its flag, and the load balancer none than the registry and the counter.
\<close>

theorem registry_fixed:
  "map URL (servers (snd (GetNextServer lb))) = map URL (servers lb) \<and>
   map URL (servers (snd (GetNextServer_times n lb))) = map URL (servers lb) \<and>
   map URL (servers (fst (HealthCheck_cycle Get lb))) = map URL (servers lb) \<and>
   map URL (servers (after (handleStatus now lb))) = map URL (servers lb) \<and>
   map URL (servers (after (ServeHTTP now transport r lb))) = map URL (servers lb)"
proof -
  have "map URL (servers (fst (HealthCheck_cycle Get lb))) =
        map URL (map (\<lambda>i. servers lb ! i) [0..<length (servers lb)])"
    by (simp add: HealthCheck_cycle_eq comp_def)
  then have h: "map URL (servers (fst (HealthCheck_cycle Get lb))) = map URL (servers lb)"
    by (simp only: map_nth)
  have "map URL (xs[i := SetHealth False (xs ! i)]) = map URL xs" for xs i
  proof (cases "i < length xs")
    case True
    then show ?thesis
      by (intro nth_equalityI) (auto simp: nth_list_update)
  next
    case False
    then have "xs[i := SetHealth False (xs ! i)] = xs"
      by (intro list_update_beyond) simp
    then show ?thesis by simp
  qed
  then have "map URL (servers (after (ServeHTTP now transport r lb))) = map URL (servers lb)"
    using GetNextServer_servers [of lb]
    by (auto simp: ServeHTTP_def handleStatus_def Let_def
        split: prod.split sum.split relay_result.split)
  then show ?thesis
    using h by (simp add: GetNextServer_servers GetNextServer_times_servers handleStatus_def)
qed

end
